theory Spec2Isabelle
  imports
    Main
    "HOL-Library.AList"
    "HOL-Library.Char_ord"
    "HOL-Library.List_Lexorder"
    "HOL-Library.Product_Lexorder"
begin

section \<open>Strings and dictionaries of the scripts\<close>

text \<open>
  The scripts are Python. A \<open>str\<close> is modelled as a \<open>string\<close> whose characters are the
  code points below 256 (ASCII and Latin-1; a \<open>char\<close> has eight bits), compared and
  ordered by code point as Python does. On these, \<open>str.strip()\<close> removes the code points
  9 to 13, 28 to 32, 133 and 160 from both ends, and \<open>str.lower()\<close> adds 32 to \<open>A..Z\<close>
  and to the capitals 0xC0 to 0xDE other than 0xD7, leaving every other code point as
  it is.
\<close>

definition isspace :: "char \<Rightarrow> bool" where
  "isspace c = (of_char c \<in> {9, 10, 11, 12, 13, 28, 29, 30, 31, 32, 133, 160 :: nat})"

definition strip :: "string \<Rightarrow> string" where
  "strip s = rev (dropWhile isspace (rev (dropWhile isspace s)))"

definition upper_case :: string where
  "upper_case =
     ''ABCDEFGHIJKLMNOPQRSTUVWXYZ'' @
       [CHR 0xC0, CHR 0xC1, CHR 0xC2, CHR 0xC3, CHR 0xC4, CHR 0xC5, CHR 0xC6, CHR 0xC7,
        CHR 0xC8, CHR 0xC9, CHR 0xCA, CHR 0xCB, CHR 0xCC, CHR 0xCD, CHR 0xCE, CHR 0xCF,
        CHR 0xD0, CHR 0xD1, CHR 0xD2, CHR 0xD3, CHR 0xD4, CHR 0xD5, CHR 0xD6, CHR 0xD8,
        CHR 0xD9, CHR 0xDA, CHR 0xDB, CHR 0xDC, CHR 0xDD, CHR 0xDE]"

definition lower_case :: string where
  "lower_case =
     ''abcdefghijklmnopqrstuvwxyz'' @
       [CHR 0xE0, CHR 0xE1, CHR 0xE2, CHR 0xE3, CHR 0xE4, CHR 0xE5, CHR 0xE6, CHR 0xE7,
        CHR 0xE8, CHR 0xE9, CHR 0xEA, CHR 0xEB, CHR 0xEC, CHR 0xED, CHR 0xEE, CHR 0xEF,
        CHR 0xF0, CHR 0xF1, CHR 0xF2, CHR 0xF3, CHR 0xF4, CHR 0xF5, CHR 0xF6, CHR 0xF8,
        CHR 0xF9, CHR 0xFA, CHR 0xFB, CHR 0xFC, CHR 0xFD, CHR 0xFE]"

definition lower_char :: "char \<Rightarrow> char" where
  "lower_char c = (case map_of (zip upper_case lower_case) c of None \<Rightarrow> c | Some l \<Rightarrow> l)"

definition lower :: "string \<Rightarrow> string" where
  "lower s = map lower_char s"

text \<open>\<^verbatim>\<open>(row.get(col) or "")\<close>: a missing cell is \<open>None\<close>.\<close>

definition or_empty :: "string option \<Rightarrow> string" where
  "or_empty v = (case v of None \<Rightarrow> [] | Some s \<Rightarrow> s)"

text \<open>
  A Python \<open>dict\<close> is an association list with distinct keys in insertion order;
  \<open>d[k] = v\<close> is \<open>AList.update k v d\<close> (an existing key keeps its position, a new key goes
  to the end) and \<open>d.get(k, default)\<close> is \<open>dict_get\<close>.
\<close>

type_synonym ('k, 'v) dict = "('k \<times> 'v) list"

definition dict_get :: "('k, 'v) dict \<Rightarrow> 'k \<Rightarrow> 'v \<Rightarrow> 'v" where
  "dict_get d k dflt = (case map_of d k of None \<Rightarrow> dflt | Some v \<Rightarrow> v)"

section \<open>build_resolved_referrals.py\<close>

definition FALLBACK_ROOT :: string where
  "FALLBACK_ROOT = ''0xb800d5359a85B5d55a5A680a6eF6f15475D7d9e9''"

record members_csv_row =
  wallet_address :: "string option"
  referrer_wallet :: "string option"

text \<open>\<open>load_member_referrers\<close>: the loop over the rows of the members file.\<close>

fun load_member_referrers_loop ::
  "(string, string) dict \<Rightarrow> members_csv_row list \<Rightarrow> (string, string) dict" where
  "load_member_referrers_loop mapping [] = mapping"
| "load_member_referrers_loop mapping (row # rows) =
     (let wallet = strip (or_empty (wallet_address row));
          ref = strip (or_empty (referrer_wallet row))
      in if wallet = [] then load_member_referrers_loop mapping rows
         else load_member_referrers_loop (AList.update wallet ref mapping) rows)"

definition load_member_referrers :: "members_csv_row list \<Rightarrow> (string, string) dict" where
  "load_member_referrers rows = load_member_referrers_loop [] rows"

text \<open>
  \<open>resolve_referrer\<close>. The objects the call can reach are kept in an explicit state: the
  dictionary and the set it is given, and its local set \<open>seen\<close>. The loop returns the
  resolved wallet together with the state it leaves behind.
\<close>

record resolve_state =
  member_refs :: "(string, string) dict"
  user_addresses :: "string set"
  seen :: "string set"

function resolve_loop :: "resolve_state \<Rightarrow> string \<Rightarrow> string \<times> resolve_state" where
  "resolve_loop s ref =
     (if ref = [] then (FALLBACK_ROOT, s)
      else if ref = FALLBACK_ROOT then (FALLBACK_ROOT, s)
      else if ref \<in> seen s then (FALLBACK_ROOT, s)
      else
        let s' = s\<lparr>seen := insert ref (seen s)\<rparr> in
        if ref \<in> user_addresses s' then (ref, s')
        else
          let next_ref = dict_get (member_refs s') ref [] in
          if next_ref = [] then (FALLBACK_ROOT, s')
          else resolve_loop s' next_ref)"
  by pat_completeness auto

termination resolve_loop
proof (relation "measure (\<lambda>(s, ref). card (fst ` set (member_refs s) - seen s))")
  show "wf (measure (\<lambda>(s, ref). card (fst ` set (member_refs s) - seen s)))"
    by simp
next
  fix s :: resolve_state and ref s' next_ref
  assume fresh: "ref \<notin> seen s"
    and s': "s' = s\<lparr>seen := insert ref (seen s)\<rparr>"
    and nxt: "next_ref = dict_get (member_refs s') ref []"
    and more: "next_ref \<noteq> []"
  from s' nxt more have key: "ref \<in> fst ` set (member_refs s)"
    by (auto simp: dict_get_def split: option.splits dest: map_of_SomeD intro: rev_image_eqI)
  have "fst ` set (member_refs s) - insert ref (seen s) \<subset> fst ` set (member_refs s) - seen s"
    using key fresh by auto
  then have "card (fst ` set (member_refs s) - insert ref (seen s))
               < card (fst ` set (member_refs s) - seen s)"
    by (intro psubset_card_mono) auto
  then show "((s', next_ref), (s, ref))
               \<in> measure (\<lambda>(s, ref). card (fst ` set (member_refs s) - seen s))"
    by (simp add: s')
qed

definition resolve_referrer_run ::
  "string \<Rightarrow> (string, string) dict \<Rightarrow> string set \<Rightarrow> string \<times> resolve_state" where
  "resolve_referrer_run user_wallet refs addrs =
     resolve_loop \<lparr>member_refs = refs, user_addresses = addrs, seen = {}\<rparr>
       (dict_get refs user_wallet [])"

definition resolve_referrer :: "string \<Rightarrow> (string, string) dict \<Rightarrow> string set \<Rightarrow> string" where
  "resolve_referrer user_wallet refs addrs = fst (resolve_referrer_run user_wallet refs addrs)"

text \<open>
  The chain a call follows, for stating what it returns: \<open>is_walk refs u path\<close> holds
  when \<open>path\<close> lists the successive values of \<open>ref\<close>, starting with the referrer of \<open>u\<close>.
\<close>

fun is_walk :: "(string, string) dict \<Rightarrow> string \<Rightarrow> string list \<Rightarrow> bool" where
  "is_walk refs u [] = True"
| "is_walk refs u (r # path) = (dict_get refs u [] = r \<and> is_walk refs r path)"

section \<open>check_csv_duplicates.py\<close>

text \<open>A row of the file, as \<open>csv.DictReader\<close> gives it: one optional cell per column used.\<close>

record wlgc_row =
  col_User_Name :: "string option"
  col_Referrer_User_Name :: "string option"
  col_Activation_sequence :: "string option"

definition user_name_of :: "wlgc_row \<Rightarrow> string" where
  "user_name_of row = strip (or_empty (col_User_Name row))"

definition referrer_name_of :: "wlgc_row \<Rightarrow> string" where
  "referrer_name_of row = strip (or_empty (col_Referrer_User_Name row))"

definition activation_seq_of :: "wlgc_row \<Rightarrow> string" where
  "activation_seq_of row = strip (or_empty (col_Activation_sequence row))"

text \<open>
  The first pass over the file fills three module-level variables. In \<open>scan_row\<close>,
  \<open>w2r\<close> is the dictionary after \<open>if user_name not in wallet_to_row: wallet_to_row[user_name] = []\<close>,
  so the subscript of \<open>wallet_to_row[user_name].append(row_num)\<close> finds its key.
\<close>

record scan_state =
  wallets :: "string list"
  referrers :: "string list"
  wallet_to_row :: "(string, nat list) dict"

definition scan_row :: "scan_state \<Rightarrow> nat \<times> wlgc_row \<Rightarrow> scan_state" where
  "scan_row st numbered =
     (case numbered of (row_num, row) \<Rightarrow>
        let user_name = user_name_of row;
            referrer_name = referrer_name_of row;
            st1 =
              (if user_name \<noteq> [] then
                 let w2r = (if user_name \<notin> fst ` set (wallet_to_row st)
                            then AList.update user_name [] (wallet_to_row st)
                            else wallet_to_row st)
                 in st\<lparr>wallets := wallets st @ [user_name],
                       wallet_to_row :=
                         AList.update user_name (dict_get w2r user_name [] @ [row_num]) w2r\<rparr>
               else st)
        in if referrer_name \<noteq> [] then st1\<lparr>referrers := referrers st1 @ [referrer_name]\<rparr>
           else st1)"

text \<open>\<open>enumerate(reader, start=2)\<close>: row 1 of the file is the header.\<close>

definition scan :: "wlgc_row list \<Rightarrow> scan_state" where
  "scan rows =
     foldl scan_row \<lparr>wallets = [], referrers = [], wallet_to_row = []\<rparr> (enumerate 2 rows)"

definition Counter :: "'a list \<Rightarrow> ('a, nat) dict" where
  "Counter xs = foldl (\<lambda>d x. AList.update x (dict_get d x 0 + 1) d) [] xs"

definition wallet_counts :: "wlgc_row list \<Rightarrow> (string, nat) dict" where
  "wallet_counts rows = Counter (wallets (scan rows))"

definition duplicates :: "wlgc_row list \<Rightarrow> (string, nat) dict" where
  "duplicates rows = [(wallet, count) \<leftarrow> wallet_counts rows. count > 1]"

text \<open>
  The report of the duplicates: \<open>for wallet, count in sorted(duplicates.items())\<close> with
  \<open>rows = wallet_to_row[wallet]\<close>, a subscript that raises \<open>KeyError\<close> on a missing key.
  Each printed entry is a wallet, its count and its rows.
\<close>

datatype py_error = KeyError string

fun report_entries ::
  "(string, nat list) dict \<Rightarrow> (string \<times> nat) list \<Rightarrow>
     py_error + (string \<times> nat \<times> nat list) list" where
  "report_entries w2r [] = Inr []"
| "report_entries w2r ((wallet, count) # rest) =
     (case map_of w2r wallet of
        None \<Rightarrow> Inl (KeyError wallet)
      | Some rows \<Rightarrow>
          (case report_entries w2r rest of
             Inl e \<Rightarrow> Inl e
           | Inr out \<Rightarrow> Inr ((wallet, count, rows) # out)))"

definition report_sorted ::
  "(string, nat list) dict \<Rightarrow> (string, nat) dict \<Rightarrow>
     py_error + (string \<times> nat \<times> nat list) list" where
  "report_sorted w2r items = report_entries w2r (sort items)"

definition duplicate_report ::
  "wlgc_row list \<Rightarrow> py_error + (string \<times> nat \<times> nat list) list" where
  "duplicate_report rows = report_sorted (wallet_to_row (scan rows)) (duplicates rows)"

definition wallet_set :: "wlgc_row list \<Rightarrow> string set" where
  "wallet_set rows = set (wallets (scan rows))"

text \<open>
  The second pass reads the same file again (the same rows) and collects the rows whose
  sponsor is missing.
\<close>

record missing_entry =
  entry_row :: nat
  entry_user :: string
  entry_referrer :: string

definition missing_row ::
  "string set \<Rightarrow> missing_entry list \<Rightarrow> nat \<times> wlgc_row \<Rightarrow> missing_entry list" where
  "missing_row known acc numbered =
     (case numbered of (row_num, row) \<Rightarrow>
        let user_name = user_name_of row;
            referrer_name = referrer_name_of row
        in if referrer_name \<noteq> [] \<and> referrer_name \<noteq> user_name then
             if referrer_name \<notin> known then
               acc @ [\<lparr>entry_row = row_num, entry_user = user_name,
                        entry_referrer = referrer_name\<rparr>]
             else acc
           else acc)"

definition missing :: "wlgc_row list \<Rightarrow> missing_entry list" where
  "missing rows = foldl (missing_row (wallet_set rows)) [] (enumerate 2 rows)"

section \<open>find_missing_sponsors.py\<close>

record member =
  m_row :: nat
  m_wallet :: string
  m_referrer :: string
  m_activation_seq :: string

record members_state =
  members :: "member list"
  all_wallets :: "string set"

definition read_member :: "members_state \<Rightarrow> nat \<times> wlgc_row \<Rightarrow> members_state" where
  "read_member st numbered =
     (case numbered of (row_num, row) \<Rightarrow>
        let user_name = user_name_of row;
            referrer_name = referrer_name_of row;
            activation_seq = activation_seq_of row
        in if user_name \<noteq> [] then
             st\<lparr>all_wallets := insert (lower user_name) (all_wallets st),
                 members := members st @
                   [\<lparr>m_row = row_num, m_wallet = user_name, m_referrer = referrer_name,
                     m_activation_seq = activation_seq\<rparr>]\<rparr>
           else st)"

definition read_members :: "wlgc_row list \<Rightarrow> members_state" where
  "read_members rows = foldl read_member \<lparr>members = [], all_wallets = {}\<rparr> (enumerate 2 rows)"

record sponsor_entry =
  Row :: nat
  Member_Wallet :: string
  Missing_Sponsor :: string
  Activation_Sequence :: string

text \<open>
  The loop over \<open>members\<close>. (It also counts each missing sponsor in a \<open>Counter\<close> that
  only the printed summary reads; the list below is what the script exports.)
\<close>

definition check_member :: "string set \<Rightarrow> sponsor_entry list \<Rightarrow> member \<Rightarrow> sponsor_entry list" where
  "check_member known acc m =
     (if m_referrer m \<noteq> [] then
        let referrer_lower = lower (m_referrer m)
        in if referrer_lower \<notin> known then
             acc @ [\<lparr>Row = m_row m, Member_Wallet = m_wallet m,
                      Missing_Sponsor = m_referrer m,
                      Activation_Sequence = m_activation_seq m\<rparr>]
           else acc
      else acc)"

definition missing_sponsors :: "wlgc_row list \<Rightarrow> sponsor_entry list" where
  "missing_sponsors rows =
     (let st = read_members rows in foldl (check_member (all_wallets st)) [] (members st))"

text \<open>Rows of the file for concrete inputs: a user name and a referrer name.\<close>

definition wlgc :: "string \<Rightarrow> string \<Rightarrow> wlgc_row" where
  "wlgc u r = \<lparr>col_User_Name = Some u, col_Referrer_User_Name = Some r,
              col_Activation_sequence = None\<rparr>"

section \<open>Notions used to state the properties\<close>

text \<open>The rows at which a user name occurs, by their numbers in the file, first to last.\<close>

definition provenance :: "string \<Rightarrow> wlgc_row list \<Rightarrow> nat list" where
  "provenance w rows = map fst (filter (\<lambda>(n, row). user_name_of row = w) (enumerate 2 rows))"

text \<open>A row of the members file for concrete inputs: a wallet and its referrer.\<close>

definition mrow :: "string \<Rightarrow> string \<Rightarrow> members_csv_row" where
  "mrow w r = \<lparr>wallet_address = Some w, referrer_wallet = Some r\<rparr>"

lemmas eval_strings =
  strip_def isspace_def or_empty_def mrow_def lower_def lower_char_def upper_case_def lower_case_def

lemma wlgc_names [simp]:
  "user_name_of (wlgc u r) = strip u" "referrer_name_of (wlgc u r) = strip r"
  by (simp_all add: wlgc_def user_name_of_def referrer_name_of_def or_empty_def)

lemma wlgc_activation [simp]: "activation_seq_of (wlgc u r) = []"
  by (simp add: wlgc_def activation_seq_of_def or_empty_def strip_def)

section \<open>Properties of resolve_referrer\<close>

lemma FALLBACK_ROOT_nonempty: "FALLBACK_ROOT \<noteq> []"
  by (simp add: FALLBACK_ROOT_def)

declare resolve_loop.simps [simp del]

lemma resolve_loop_cohort_or_fallback:
  "fst (resolve_loop s ref) \<in> user_addresses s \<or> fst (resolve_loop s ref) = FALLBACK_ROOT"
proof (induction s ref rule: resolve_loop.induct)
  case (1 s ref)
  show ?case
    using "1.IH" [OF _ _ _ refl _ refl]
    by (subst (1 2) resolve_loop.simps) (auto simp: Let_def)
qed

lemma resolve_loop_nonempty: "fst (resolve_loop s ref) \<noteq> []"
proof (induction s ref rule: resolve_loop.induct)
  case (1 s ref)
  show ?case
    using "1.IH" [OF _ _ _ refl _ refl] FALLBACK_ROOT_nonempty
    by (subst resolve_loop.simps) (auto simp: Let_def)
qed

text \<open>
  C2. \<open>resolve_referrer\<close> is a total function (its loop terminates on every dictionary,
  cyclic or not, by the termination proof above: each round adds a key of the dictionary
  to \<open>seen\<close>), it has no raising branch, and its result is a wallet of the cohort set or
  \<open>FALLBACK_ROOT\<close>, and is never the empty string.
\<close>

theorem resolve_referrer_total_cohort_or_fallback:
  "(resolve_referrer user_wallet refs addrs \<in> addrs
      \<or> resolve_referrer user_wallet refs addrs = FALLBACK_ROOT)
   \<and> resolve_referrer user_wallet refs addrs \<noteq> []"
  using resolve_loop_cohort_or_fallback
          [of "\<lparr>member_refs = refs, user_addresses = addrs, seen = {}\<rparr>"
              "dict_get refs user_wallet []"]
        resolve_loop_nonempty
          [of "\<lparr>member_refs = refs, user_addresses = addrs, seen = {}\<rparr>"
              "dict_get refs user_wallet []"]
  by (simp add: resolve_referrer_def resolve_referrer_run_def)

theorem resolve_referrer_total_cohort_or_fallback_witness:
  "(resolve_referrer ''A'' [(''A'', ''B''), (''B'', ''C''), (''C'', ''A'')] {''Q''} \<in> {''Q''}
      \<or> resolve_referrer ''A'' [(''A'', ''B''), (''B'', ''C''), (''C'', ''A'')] {''Q''}
          = FALLBACK_ROOT)
   \<and> resolve_referrer ''A'' [(''A'', ''B''), (''B'', ''C''), (''C'', ''A'')] {''Q''} \<noteq> []"
  by (rule resolve_referrer_total_cohort_or_fallback)

lemma resolve_loop_hit:
  "ref \<noteq> [] \<Longrightarrow> ref \<notin> seen s \<Longrightarrow> ref \<in> user_addresses s \<Longrightarrow>
   fst (resolve_loop s ref) = ref"
  by (subst resolve_loop.simps) (simp add: Let_def)

lemma resolve_loop_climb:
  "ref \<noteq> [] \<Longrightarrow> ref \<noteq> FALLBACK_ROOT \<Longrightarrow> ref \<notin> seen s \<Longrightarrow>
   ref \<notin> user_addresses s \<Longrightarrow> dict_get (member_refs s) ref [] \<noteq> [] \<Longrightarrow>
   resolve_loop s ref =
     resolve_loop (s\<lparr>seen := insert ref (seen s)\<rparr>) (dict_get (member_refs s) ref [])"
  by (subst resolve_loop.simps) (simp add: Let_def)

text \<open>
  C1. In a dictionary with \<open>X \<mapsto> Y\<close>, \<open>Y \<mapsto> Z\<close>, \<open>Z \<mapsto> FALLBACK_ROOT\<close> (\<open>Y\<close> a wallet,
  hence not the empty string): when \<open>Y\<close> is in the cohort set the call for \<open>X\<close> returns
  \<open>Y\<close>; when neither \<open>Y\<close> nor \<open>Z\<close> is, it returns \<open>FALLBACK_ROOT\<close>.
\<close>

theorem resolve_referrer_chain:
  assumes "map_of refs X = Some Y" and "map_of refs Y = Some Z"
    and "map_of refs Z = Some FALLBACK_ROOT" and "Y \<noteq> []"
  shows "(Y \<in> addrs \<longrightarrow> resolve_referrer X refs addrs = Y)
       \<and> (Y \<notin> addrs \<and> Z \<notin> addrs \<longrightarrow> resolve_referrer X refs addrs = FALLBACK_ROOT)"
proof (intro conjI impI)
  assume "Y \<in> addrs"
  then show "resolve_referrer X refs addrs = Y"
    using assms
    by (simp add: resolve_referrer_def resolve_referrer_run_def dict_get_def resolve_loop_hit)
next
  assume "Y \<notin> addrs \<and> Z \<notin> addrs"
  then show "resolve_referrer X refs addrs = FALLBACK_ROOT"
    using assms
    by (simp add: resolve_referrer_def resolve_referrer_run_def dict_get_def Let_def
          resolve_loop.simps [of _ Y] resolve_loop.simps [of _ Z]
          resolve_loop.simps [of _ FALLBACK_ROOT])
qed

theorem resolve_referrer_chain_witness:
  "map_of [(''X'', ''Y''), (''Y'', ''Z''), (''Z'', FALLBACK_ROOT)] ''X'' = Some ''Y''
   \<and> map_of [(''X'', ''Y''), (''Y'', ''Z''), (''Z'', FALLBACK_ROOT)] ''Y'' = Some ''Z''
   \<and> map_of [(''X'', ''Y''), (''Y'', ''Z''), (''Z'', FALLBACK_ROOT)] ''Z'' = Some FALLBACK_ROOT
   \<and> resolve_referrer ''X'' [(''X'', ''Y''), (''Y'', ''Z''), (''Z'', FALLBACK_ROOT)] {''Y''}
       = ''Y''
   \<and> resolve_referrer ''X'' [(''X'', ''Y''), (''Y'', ''Z''), (''Z'', FALLBACK_ROOT)] {''Q''}
       = FALLBACK_ROOT"
  using resolve_referrer_chain
          [of "[(''X'', ''Y''), (''Y'', ''Z''), (''Z'', FALLBACK_ROOT)]"
              "''X''" "''Y''" "''Z''" "{''Y''}"]
        resolve_referrer_chain
          [of "[(''X'', ''Y''), (''Y'', ''Z''), (''Z'', FALLBACK_ROOT)]"
              "''X''" "''Y''" "''Z''" "{''Q''}"]
  by simp

lemma resolve_loop_frame:
  "member_refs (snd (resolve_loop s ref)) = member_refs s
   \<and> user_addresses (snd (resolve_loop s ref)) = user_addresses s"
proof (induction s ref rule: resolve_loop.induct)
  case (1 s ref)
  show ?case
    using "1.IH" [OF _ _ _ refl _ refl]
    by (subst (1 2) resolve_loop.simps) (auto simp: Let_def)
qed

text \<open>
  C9. The state a call of \<open>resolve_referrer\<close> leaves behind holds the dictionary and the
  cohort set it was given, unchanged (the only object written is the call's own \<open>seen\<close>;
  \<open>FALLBACK_ROOT\<close> is a constant), so a second call on the objects left by the first
  returns the same wallet.
\<close>

theorem resolve_referrer_frame:
  "member_refs (snd (resolve_referrer_run user_wallet refs addrs)) = refs
   \<and> user_addresses (snd (resolve_referrer_run user_wallet refs addrs)) = addrs
   \<and> resolve_referrer user_wallet
        (member_refs (snd (resolve_referrer_run user_wallet refs addrs)))
        (user_addresses (snd (resolve_referrer_run user_wallet refs addrs)))
       = resolve_referrer user_wallet refs addrs"
  using resolve_loop_frame
          [of "\<lparr>member_refs = refs, user_addresses = addrs, seen = {}\<rparr>"
              "dict_get refs user_wallet []"]
  by (simp add: resolve_referrer_run_def)

theorem resolve_referrer_frame_witness:
  "member_refs (snd (resolve_referrer_run ''D''
      [(''A'', []), (''B'', ''A''), (''C'', ''B''), (''D'', ''C''), (''E'', ''Z'')] {''B''}))
     = [(''A'', []), (''B'', ''A''), (''C'', ''B''), (''D'', ''C''), (''E'', ''Z'')]
   \<and> user_addresses (snd (resolve_referrer_run ''D''
      [(''A'', []), (''B'', ''A''), (''C'', ''B''), (''D'', ''C''), (''E'', ''Z'')] {''B''}))
     = {''B''}"
  using resolve_referrer_frame
          [of "''D''" "[(''A'', []), (''B'', ''A''), (''C'', ''B''), (''D'', ''C''), (''E'', ''Z'')]"
              "{''B''}"]
  by simp

lemma resolve_loop_walk:
  assumes "is_walk (member_refs s) u (path @ [d])"
    and "distinct (path @ [d])"
    and "[] \<notin> set (path @ [d])"
    and "FALLBACK_ROOT \<notin> set path"
    and "set (path @ [d]) \<inter> seen s = {}"
    and "set path \<inter> user_addresses s = {}"
    and "d \<in> user_addresses s"
  shows "fst (resolve_loop s (dict_get (member_refs s) u [])) = d"
  using assms
proof (induction path arbitrary: s u)
  case Nil
  then show ?case by (simp add: resolve_loop_hit)
next
  case (Cons r path)
  let ?s' = "s\<lparr>seen := insert r (seen s)\<rparr>"
  from Cons.prems have r: "dict_get (member_refs s) u [] = r"
    and walk: "is_walk (member_refs s) r (path @ [d])"
    by simp_all
  from walk Cons.prems(3) have nxt: "dict_get (member_refs s) r [] \<noteq> []"
    by (cases path) auto
  have "resolve_loop s r = resolve_loop ?s' (dict_get (member_refs s) r [])"
    using Cons.prems nxt by (intro resolve_loop_climb) auto
  moreover have "fst (resolve_loop ?s' (dict_get (member_refs ?s') r [])) = d"
    using Cons.prems walk by (intro Cons.IH) auto
  ultimately show ?case by (simp add: r)
qed

text \<open>
  C10. When the chain followed from \<open>user_wallet\<close> passes wallets outside the cohort set
  (\<open>path\<close>) and then reaches a wallet \<open>d\<close> of the cohort set that is no key of the
  dictionary (a dangling referrer), the call returns \<open>d\<close>: membership in the cohort set is
  tested before the referrer of \<open>d\<close> is looked up. So the result need not be a key.
\<close>

theorem resolve_referrer_returns_dangling_cohort_wallet:
  assumes "is_walk refs user_wallet (path @ [d])"
    and "distinct (path @ [d])"
    and "[] \<notin> set (path @ [d])"
    and "FALLBACK_ROOT \<notin> set path"
    and "set path \<inter> addrs = {}"
    and "d \<in> addrs"
    and "d \<notin> fst ` set refs"
  shows "resolve_referrer user_wallet refs addrs = d
       \<and> resolve_referrer user_wallet refs addrs \<notin> fst ` set refs"
proof -
  have "fst (resolve_loop \<lparr>member_refs = refs, user_addresses = addrs, seen = {}\<rparr>
               (dict_get (member_refs \<lparr>member_refs = refs, user_addresses = addrs, seen = {}\<rparr>)
                  user_wallet [])) = d"
    using assms by (intro resolve_loop_walk [where path = path]) simp_all
  then show ?thesis
    using assms(7) by (simp add: resolve_referrer_def resolve_referrer_run_def)
qed

theorem resolve_referrer_returns_dangling_cohort_wallet_witness:
  "is_walk [(''E'', ''F''), (''F'', ''Z'')] ''E'' ([''F''] @ [''Z''])
   \<and> ''Z'' \<notin> fst ` set [(''E'', ''F''), (''F'', ''Z'')]
   \<and> resolve_referrer ''E'' [(''E'', ''F''), (''F'', ''Z'')] {''Z''} = ''Z''"
  using resolve_referrer_returns_dangling_cohort_wallet
          [of "[(''E'', ''F''), (''F'', ''Z'')]" "''E''" "[''F'']" "''Z''" "{''Z''}"]
  by (simp add: dict_get_def FALLBACK_ROOT_def)

section \<open>Properties of load_member_referrers\<close>

lemma load_loop_distinct:
  "distinct (map fst mapping) \<Longrightarrow> distinct (map fst (load_member_referrers_loop mapping rows))"
  by (induction rows arbitrary: mapping) (simp_all add: Let_def distinct_update)

lemma load_loop_untouched:
  "\<forall>r \<in> set rows. strip (or_empty (wallet_address r)) \<noteq> w \<Longrightarrow>
   map_of (load_member_referrers_loop mapping rows) w = map_of mapping w"
  by (induction rows arbitrary: mapping) (auto simp: Let_def update_conv')

lemma load_loop_append:
  "load_member_referrers_loop mapping (xs @ ys) =
     load_member_referrers_loop (load_member_referrers_loop mapping xs) ys"
  by (induction xs arbitrary: mapping) (simp_all add: Let_def)

lemma dict_single_entry:
  "distinct (map fst d) \<Longrightarrow> map_of d k = Some v \<Longrightarrow> filter (\<lambda>e. fst e = k) d = [(k, v)]"
proof (induction d)
  case Nil
  then show ?case by simp
next
  case (Cons e d)
  show ?case
  proof (cases "fst e = k")
    case True
    with Cons.prems have "e = (k, v)" by (cases e) simp
    moreover from True Cons.prems have "k \<notin> fst ` set d"
      by simp
    then have "filter (\<lambda>e. fst e = k) d = []"
      unfolding filter_empty_conv by (metis imageI)
    ultimately show ?thesis by simp
  next
    case False
    with Cons show ?thesis by (cases e) auto
  qed
qed

text \<open>
  C3 as stated fails: with two rows for the wallet \<open>0xA1\<close>, the dictionary holds the
  referrer of the second row, not that of the first-seen row.
\<close>

theorem load_member_referrers_first_seen_counterexample:
  "map_of (load_member_referrers [mrow ''0xA1'' ''0xB1'', mrow ''0xA1'' ''0xC1'']) ''0xA1''
     = Some ''0xC1''
   \<and> map_of (load_member_referrers [mrow ''0xA1'' ''0xB1'', mrow ''0xA1'' ''0xC1'']) ''0xA1''
     \<noteq> Some (strip (or_empty (referrer_wallet (mrow ''0xA1'' ''0xB1''))))"
  by (simp add: load_member_referrers_def Let_def eval_strings)

text \<open>
  C3 (amended). After \<open>load_member_referrers\<close>, a trimmed, non-empty wallet \<open>w\<close> (compared
  exactly) has exactly one entry in the dictionary, and its value is the trimmed referrer
  of the last row whose wallet is \<open>w\<close>: \<open>mapping[wallet] = ref\<close> overwrites, and the
  loader records no duplicates.
\<close>

theorem load_member_referrers_last_wins:
  assumes "rows = before @ row # after"
    and "strip (or_empty (wallet_address row)) = w" and "w \<noteq> []"
    and "\<forall>r \<in> set after. strip (or_empty (wallet_address r)) \<noteq> w"
  shows "filter (\<lambda>e. fst e = w) (load_member_referrers rows)
           = [(w, strip (or_empty (referrer_wallet row)))]"
proof -
  let ?m = "load_member_referrers_loop [] before"
  let ?ref = "strip (or_empty (referrer_wallet row))"
  have "load_member_referrers rows = load_member_referrers_loop (AList.update w ?ref ?m) after"
    using assms(1-3) by (simp add: load_member_referrers_def load_loop_append Let_def)
  then have "map_of (load_member_referrers rows) w = Some ?ref"
    using assms(4) by (simp add: load_loop_untouched update_conv')
  moreover have "distinct (map fst (load_member_referrers rows))"
    by (simp add: load_member_referrers_def load_loop_distinct)
  ultimately show ?thesis by (rule dict_single_entry [rotated])
qed

theorem load_member_referrers_last_wins_witness:
  "filter (\<lambda>e. fst e = ''0xA1'')
     (load_member_referrers [mrow ''0xA1'' ''0xB1'', mrow ''0xA1'' ''0xC1'', mrow ''0xD1'' ''0xA1''])
     = [(''0xA1'', ''0xC1'')]"
  using load_member_referrers_last_wins
          [of "[mrow ''0xA1'' ''0xB1'', mrow ''0xA1'' ''0xC1'', mrow ''0xD1'' ''0xA1'']"
              "[mrow ''0xA1'' ''0xB1'']" "mrow ''0xA1'' ''0xC1''" "[mrow ''0xD1'' ''0xA1'']"
              "''0xA1''"]
  by (simp add: eval_strings)

section \<open>Closed forms of the two audit scripts\<close>

lemma foldl_collect:
  assumes "\<And>acc x. step acc x = acc @ (if keep x then [mk x] else [])"
  shows "foldl step acc xs = acc @ map mk (filter keep xs)"
  by (induction xs arbitrary: acc) (simp_all add: assms)

lemma enumerate_lower_bound: "p \<in> set (enumerate k xs) \<Longrightarrow> k \<le> fst p"
  by (cases p) (auto simp: in_set_enumerate_eq)

lemma filter_enumerate_index:
  "i < length xs \<Longrightarrow> filter (\<lambda>p. fst p = i + k) (enumerate k xs) = [(i + k, xs ! i)]"
proof (induction xs arbitrary: i k)
  case Nil
  then show ?case by simp
next
  case (Cons x xs)
  show ?case
  proof (cases i)
    case 0
    have "filter (\<lambda>p. fst p = k) (enumerate (Suc k) xs) = []"
      unfolding filter_empty_conv using enumerate_lower_bound [of _ "Suc k" xs] by fastforce
    with 0 show ?thesis by simp
  next
    case (Suc j)
    with Cons.prems have "j < length xs" by simp
    from Cons.IH [OF this, of "Suc k"] Suc show ?thesis by simp
  qed
qed

lemma filter_enumerate_at:
  assumes "i < length xs"
  shows "filter (\<lambda>p. fst p = i + k \<and> keep p) (enumerate k xs) =
           (if keep (i + k, xs ! i) then [(i + k, xs ! i)] else [])"
proof -
  have "filter (\<lambda>p. fst p = i + k \<and> keep p) (enumerate k xs)
          = filter keep (filter (\<lambda>p. fst p = i + k) (enumerate k xs))"
    by (simp add: conj_commute)
  then show ?thesis by (simp add: filter_enumerate_index [OF assms])
qed

lemma read_members_members:
  "members (foldl read_member st xs) =
     members st @
       map (\<lambda>(n, row). \<lparr>m_row = n, m_wallet = user_name_of row,
              m_referrer = referrer_name_of row, m_activation_seq = activation_seq_of row\<rparr>)
         (filter (\<lambda>(n, row). user_name_of row \<noteq> []) xs)"
  by (induction xs arbitrary: st) (auto simp: read_member_def Let_def)

lemma read_member_all_wallets:
  "all_wallets (read_member st p) =
     (if user_name_of (snd p) \<noteq> [] then insert (lower (user_name_of (snd p))) (all_wallets st)
      else all_wallets st)"
  by (cases p) (simp add: read_member_def Let_def)

lemma read_members_all_wallets:
  "all_wallets (foldl read_member st xs) =
     all_wallets st \<union> lower ` {w \<in> user_name_of ` snd ` set xs. w \<noteq> []}"
proof (induction xs arbitrary: st)
  case Nil
  then show ?case by simp
next
  case (Cons p xs)
  show ?case
    unfolding foldl_Cons Cons.IH read_member_all_wallets by auto
qed

lemma snd_set_enumerate: "snd ` set (enumerate k xs) = set xs"
  by (metis list.set_map map_snd_enumerate)

lemma check_member_collect:
  "foldl (check_member known) [] ms =
     map (\<lambda>m. \<lparr>Row = m_row m, Member_Wallet = m_wallet m,
            Missing_Sponsor = m_referrer m, Activation_Sequence = m_activation_seq m\<rparr>)
       (filter (\<lambda>m. m_referrer m \<noteq> [] \<and> lower (m_referrer m) \<notin> known) ms)"
  using foldl_collect
          [where step = "check_member known" and acc = "[]"
             and keep = "\<lambda>m. m_referrer m \<noteq> [] \<and> lower (m_referrer m) \<notin> known"
             and mk = "\<lambda>m. \<lparr>Row = m_row m, Member_Wallet = m_wallet m,
                 Missing_Sponsor = m_referrer m, Activation_Sequence = m_activation_seq m\<rparr>"]
  by (simp add: check_member_def Let_def)

lemma missing_sponsors_closed:
  "missing_sponsors rows =
     map (\<lambda>(n, row). \<lparr>Row = n, Member_Wallet = user_name_of row,
            Missing_Sponsor = referrer_name_of row,
            Activation_Sequence = activation_seq_of row\<rparr>)
       (filter (\<lambda>(n, row). user_name_of row \<noteq> [] \<and> referrer_name_of row \<noteq> [] \<and>
                  lower (referrer_name_of row) \<notin> lower ` {w \<in> user_name_of ` set rows. w \<noteq> []})
          (enumerate 2 rows))"
proof -
  let ?known = "lower ` {w \<in> user_name_of ` set rows. w \<noteq> []}"
  have known: "all_wallets (read_members rows) = ?known"
    by (simp add: read_members_def read_members_all_wallets snd_set_enumerate)
  have ms: "members (read_members rows) =
      map (\<lambda>(n, row). \<lparr>m_row = n, m_wallet = user_name_of row,
              m_referrer = referrer_name_of row, m_activation_seq = activation_seq_of row\<rparr>)
         (filter (\<lambda>(n, row). user_name_of row \<noteq> []) (enumerate 2 rows))"
    by (simp add: read_members_def read_members_members)
  have "missing_sponsors rows = foldl (check_member ?known) [] (members (read_members rows))"
    by (simp only: missing_sponsors_def Let_def known)
  then show ?thesis
    unfolding check_member_collect ms
    by (simp add: filter_map comp_def case_prod_unfold)
qed

lemma missing_row_collect:
  "foldl (missing_row known) [] xs =
     map (\<lambda>(n, row). \<lparr>entry_row = n, entry_user = user_name_of row,
            entry_referrer = referrer_name_of row\<rparr>)
       (filter (\<lambda>(n, row). referrer_name_of row \<noteq> [] \<and>
                  referrer_name_of row \<noteq> user_name_of row \<and>
                  referrer_name_of row \<notin> known) xs)"
proof -
  have "missing_row known acc p =
          acc @ (if (case p of (n, row) \<Rightarrow> referrer_name_of row \<noteq> [] \<and>
                        referrer_name_of row \<noteq> user_name_of row \<and>
                        referrer_name_of row \<notin> known)
                 then [case p of (n, row) \<Rightarrow> \<lparr>entry_row = n, entry_user = user_name_of row,
                         entry_referrer = referrer_name_of row\<rparr>]
                 else [])" for acc p
    by (cases p) (simp add: missing_row_def Let_def)
  from foldl_collect [of "missing_row known", OF this, of "[]" xs] show ?thesis
    by simp
qed

lemma missing_closed:
  "missing rows =
     map (\<lambda>(n, row). \<lparr>entry_row = n, entry_user = user_name_of row,
            entry_referrer = referrer_name_of row\<rparr>)
       (filter (\<lambda>(n, row). referrer_name_of row \<noteq> [] \<and>
                  referrer_name_of row \<noteq> user_name_of row \<and>
                  referrer_name_of row \<notin> wallet_set rows)
          (enumerate 2 rows))"
  by (simp add: missing_def missing_row_collect)

lemma enumerate_snoc: "enumerate k (xs @ [x]) = enumerate k xs @ [(k + length xs, x)]"
  by (simp add: enumerate_append_eq)

lemma scan_snoc: "scan (rows @ [row]) = scan_row (scan rows) (2 + length rows, row)"
  by (simp add: scan_def enumerate_snoc)

lemma scan_wallets: "wallets (scan rows) = filter (\<lambda>w. w \<noteq> []) (map user_name_of rows)"
  by (induction rows rule: rev_induct) (simp_all add: scan_snoc scan_row_def Let_def, simp add: scan_def)

lemma wallet_set_eq: "wallet_set rows = {w \<in> user_name_of ` set rows. w \<noteq> []}"
  by (auto simp: wallet_set_def scan_wallets)

lemma provenance_snoc:
  "provenance w (rows @ [row]) =
     provenance w rows @ (if user_name_of row = w then [2 + length rows] else [])"
  by (simp add: provenance_def enumerate_snoc)

lemma provenance_absent: "w \<notin> user_name_of ` set rows \<Longrightarrow> provenance w rows = []"
  by (auto simp: provenance_def filter_empty_conv in_set_enumerate_eq)

lemma scan_wallet_to_row:
  "map_of (wallet_to_row (scan rows)) w =
     (if w \<noteq> [] \<and> w \<in> user_name_of ` set rows then Some (provenance w rows) else None)"
proof (induction rows arbitrary: w rule: rev_induct)
  case Nil
  then show ?case by (simp add: scan_def)
next
  case (snoc row rows)
  let ?u = "user_name_of row"
  let ?old = "wallet_to_row (scan rows)"
  let ?w2r = "if ?u \<notin> fst ` set ?old then AList.update ?u [] ?old else ?old"
  show ?case
  proof (cases "?u = []")
    case True
    then have "wallet_to_row (scan (rows @ [row])) = ?old"
      by (simp add: scan_snoc scan_row_def Let_def)
    with True snoc.IH show ?thesis
      by (auto simp: provenance_snoc)
  next
    case False
    have present: "?u \<in> fst ` set ?old \<longleftrightarrow> ?u \<in> user_name_of ` set rows"
      using snoc.IH [of ?u] False map_of_eq_None_iff [of ?old ?u]
      by (auto split: if_splits)
    have got: "dict_get ?w2r ?u [] = provenance ?u rows"
      using snoc.IH [of ?u] False present
      by (auto simp: dict_get_def update_conv' provenance_absent)
    have other: "map_of ?w2r v = map_of ?old v" if "v \<noteq> ?u" for v
      using that by (simp add: update_conv')
    have new: "wallet_to_row (scan (rows @ [row])) =
                 AList.update ?u (dict_get ?w2r ?u [] @ [2 + length rows]) ?w2r"
      using False by (simp add: scan_snoc scan_row_def Let_def)
    show ?thesis
    proof (cases "w = ?u")
      case True
      with False show ?thesis
        unfolding new by (simp add: update_conv' got provenance_snoc)
    next
      case False
      then show ?thesis
        unfolding new using other [of w] snoc.IH [of w]
        by (auto simp: update_conv' provenance_snoc)
    qed
  qed
qed

lemma Counter_snoc: "Counter (xs @ [x]) = AList.update x (dict_get (Counter xs) x 0 + 1) (Counter xs)"
  by (simp add: Counter_def)

lemma Counter_distinct: "distinct (map fst (Counter xs))"
  by (induction xs rule: rev_induct) (simp_all add: Counter_snoc distinct_update, simp add: Counter_def)

lemma Counter_lookup:
  "map_of (Counter xs) w = (if w \<in> set xs then Some (count_list xs w) else None)"
proof (induction xs rule: rev_induct)
  case Nil
  then show ?case by (simp add: Counter_def)
next
  case (snoc x xs)
  then show ?case
    by (auto simp: Counter_snoc update_conv' dict_get_def count_list_append
          count_list_0_iff)
qed

lemma count_wallets:
  "w \<noteq> [] \<Longrightarrow> count_list (wallets (scan rows)) w = length (filter (\<lambda>row. user_name_of row = w) rows)"
  unfolding scan_wallets by (induction rows) auto

lemma length_provenance: "length (provenance w rows) = length (filter (\<lambda>row. user_name_of row = w) rows)"
proof -
  have "length (filter (\<lambda>p. P (snd p)) (enumerate k xs)) = length (filter P xs)" for P k and xs :: "wlgc_row list"
    by (induction xs arbitrary: k) simp_all
  then show ?thesis by (simp add: provenance_def case_prod_unfold)
qed

lemma wallet_counts_lookup:
  "map_of (wallet_counts rows) w =
     (if w \<in> wallet_set rows then Some (length (filter (\<lambda>row. user_name_of row = w) rows)) else None)"
  by (auto simp: wallet_counts_def Counter_lookup wallet_set_def count_wallets [symmetric] scan_wallets)

lemma duplicates_distinct: "distinct (map fst (duplicates rows))"
  unfolding duplicates_def wallet_counts_def
  by (rule distinct_map_filter) (rule Counter_distinct)

lemma duplicates_entry:
  "filter (\<lambda>e. fst e = w) (duplicates rows) =
     (if w \<noteq> [] \<and> 2 \<le> length (filter (\<lambda>row. user_name_of row = w) rows)
      then [(w, length (filter (\<lambda>row. user_name_of row = w) rows))] else [])"
proof -
  let ?k = "length (filter (\<lambda>row. user_name_of row = w) rows)"
  have swap: "filter (\<lambda>e. fst e = w) (duplicates rows)
          = filter (\<lambda>(wallet, count). count > 1) (filter (\<lambda>e. fst e = w) (wallet_counts rows))"
    by (simp add: duplicates_def conj_commute case_prod_unfold)
  show ?thesis
  proof (cases "w \<in> wallet_set rows")
    case True
    then have "filter (\<lambda>e. fst e = w) (wallet_counts rows) = [(w, ?k)]"
      by (intro dict_single_entry) (simp_all add: wallet_counts_lookup, simp add: wallet_counts_def Counter_distinct)
    moreover from True have "w \<noteq> []" by (simp add: wallet_set_eq)
    ultimately show ?thesis unfolding swap by auto
  next
    case False
    then have "map_of (wallet_counts rows) w = None" by (simp add: wallet_counts_lookup)
    then have "w \<notin> fst ` set (wallet_counts rows)" by (simp add: map_of_eq_None_iff)
    then have "filter (\<lambda>e. fst e = w) (wallet_counts rows) = []"
      unfolding filter_empty_conv by (metis imageI)
    moreover from False have "w = [] \<or> ?k = 0"
      by (auto simp: wallet_set_eq filter_empty_conv)
    ultimately show ?thesis unfolding swap by auto
  qed
qed

lemma duplicates_keys: "e \<in> set (duplicates rows) \<Longrightarrow> fst e \<noteq> [] \<and> fst e \<in> user_name_of ` set rows"
proof -
  assume "e \<in> set (duplicates rows)"
  then have "e \<in> set (wallet_counts rows)" by (simp add: duplicates_def)
  then have "fst e \<in> fst ` set (wallet_counts rows)" by (rule imageI)
  then have "map_of (wallet_counts rows) (fst e) \<noteq> None" by (simp add: map_of_eq_None_iff)
  then show ?thesis by (auto simp: wallet_counts_lookup wallet_set_eq split: if_splits)
qed

lemma report_entries_ok:
  "\<forall>e \<in> set items. map_of w2r (fst e) = Some (f (fst e)) \<Longrightarrow>
   report_entries w2r items = Inr (map (\<lambda>(w, c). (w, c, f w)) items)"
  by (induction items) auto

lemma report_sorted_closed:
  assumes "set items = set (duplicates rows)"
  shows "report_sorted (wallet_to_row (scan rows)) items =
           Inr (map (\<lambda>(w, c). (w, c, provenance w rows)) (sort items))"
  unfolding report_sorted_def
  using assms duplicates_keys
  by (intro report_entries_ok) (auto simp: scan_wallet_to_row)

lemma duplicate_report_closed:
  "duplicate_report rows = Inr (map (\<lambda>(w, c). (w, c, provenance w rows)) (sort (duplicates rows)))"
  by (simp add: duplicate_report_def report_sorted_closed)

section \<open>Properties of the audit scripts\<close>

lemma filter_map_enumerate_at:
  assumes "i < length xs" and "\<And>p. tag (mk p) = fst p"
  shows "filter (\<lambda>e. tag e = i + k) (map mk (filter keep (enumerate k xs))) =
           (if keep (i + k, xs ! i) then [mk (i + k, xs ! i)] else [])"
proof -
  have "filter (\<lambda>e. tag e = i + k) (map mk (filter keep (enumerate k xs)))
          = map mk (filter (\<lambda>p. fst p = i + k \<and> keep p) (enumerate k xs))"
    by (simp add: filter_map comp_def assms(2) conj_commute)
  then show ?thesis by (simp add: filter_enumerate_at [OF assms(1)])
qed

lemma missing_at_row:
  assumes "i < length rows"
  shows "filter (\<lambda>e. entry_row e = i + 2) (missing rows) =
           (if referrer_name_of (rows ! i) \<noteq> [] \<and>
               referrer_name_of (rows ! i) \<noteq> user_name_of (rows ! i) \<and>
               referrer_name_of (rows ! i) \<notin> wallet_set rows
            then [\<lparr>entry_row = i + 2, entry_user = user_name_of (rows ! i),
                    entry_referrer = referrer_name_of (rows ! i)\<rparr>]
            else [])"
  unfolding missing_closed
  by (subst filter_map_enumerate_at [OF assms]) (simp_all add: case_prod_unfold)

lemma missing_sponsors_at_row:
  assumes "i < length rows"
  shows "filter (\<lambda>e. Row e = i + 2) (missing_sponsors rows) =
           (if user_name_of (rows ! i) \<noteq> [] \<and> referrer_name_of (rows ! i) \<noteq> [] \<and>
               lower (referrer_name_of (rows ! i)) \<notin> lower ` wallet_set rows
            then [\<lparr>Row = i + 2, Member_Wallet = user_name_of (rows ! i),
                    Missing_Sponsor = referrer_name_of (rows ! i),
                    Activation_Sequence = activation_seq_of (rows ! i)\<rparr>]
            else [])"
  unfolding missing_sponsors_closed wallet_set_eq
  by (subst filter_map_enumerate_at [OF assms]) (simp_all add: case_prod_unfold)

lemma duplicates_none:
  assumes "\<And>w. length (filter (\<lambda>row. user_name_of row = w) rows) < 2"
  shows "duplicates rows = []"
proof (rule ccontr)
  assume "duplicates rows \<noteq> []"
  then obtain e where "e \<in> set (duplicates rows)" by (cases "duplicates rows") auto
  then have "e \<in> set (filter (\<lambda>x. fst x = fst e) (duplicates rows))" by simp
  then show False
    unfolding duplicates_entry using assms [of "fst e"] by simp
qed

lemma sorted_fst_filter_enumerate: "sorted_wrt (<) (map fst (filter P (enumerate k xs)))"
proof -
  have "sorted_wrt (<) (map fst (enumerate k xs))" by simp
  then have "sorted_wrt (\<lambda>p q. fst p < fst q) (enumerate k xs)"
    by (simp only: sorted_wrt_map)
  then have "sorted_wrt (\<lambda>p q. fst p < fst q) (filter P (enumerate k xs))"
    by (rule sorted_wrt_filter)
  then show ?thesis by (simp only: sorted_wrt_map)
qed

lemma sorted_map_fst: "sorted (xs :: (string \<times> nat) list) \<Longrightarrow> sorted (map fst xs)"
  unfolding sorted_wrt_map
  by (erule sorted_wrt_mono_rel [rotated]) (auto simp: less_eq_prod_def)

text \<open>
  C4 as stated fails: \<open>0xABC\<close> and \<open>0xabc\<close> differ only in letter case, yet the loader
  and \<open>resolve_referrer\<close> treat them as two wallets. The member is stored as \<open>0xABC\<close>;
  resolving for \<open>0xABC\<close> finds its referrer, resolving for \<open>0xabc\<close> finds nothing and
  falls back.
\<close>

theorem case_sensitive_resolution_counterexample:
  "lower ''0xABC'' = lower ''0xabc''
   \<and> resolve_referrer ''0xABC'' (load_member_referrers [mrow ''0xABC'' ''0xdef'']) {''0xdef''}
       = ''0xdef''
   \<and> resolve_referrer ''0xabc'' (load_member_referrers [mrow ''0xABC'' ''0xdef'']) {''0xdef''}
       = FALLBACK_ROOT"
  by (simp add: load_member_referrers_def resolve_referrer_def resolve_referrer_run_def
        resolve_loop.simps dict_get_def FALLBACK_ROOT_def Let_def eval_strings)

text \<open>
  C4 (amended). Letter case is ignored only by the sponsor test of find_missing_sponsors.py:
  a row whose referrer equals, after lower-casing, the lower-cased user name of some row
  with a non-empty user name gets no entry, and every entry carries the row's own trimmed
  strings in their original case. (\<open>load_member_referrers\<close>, \<open>resolve_referrer\<close> and the
  duplicate count compare trimmed strings exactly.)
\<close>

theorem missing_sponsors_case_insensitive:
  assumes "i < length rows" and "j < length rows"
    and "user_name_of (rows ! j) \<noteq> []"
    and "lower (referrer_name_of (rows ! i)) = lower (user_name_of (rows ! j))"
  shows "filter (\<lambda>e. Row e = i + 2) (missing_sponsors rows) = []
       \<and> (\<forall>e \<in> set (missing_sponsors rows). \<exists>k < length rows.
            e = \<lparr>Row = k + 2, Member_Wallet = user_name_of (rows ! k),
                  Missing_Sponsor = referrer_name_of (rows ! k),
                  Activation_Sequence = activation_seq_of (rows ! k)\<rparr>)"
proof
  from assms(2,3) have "user_name_of (rows ! j) \<in> wallet_set rows"
    by (auto simp: wallet_set_eq)
  then have "lower (referrer_name_of (rows ! i)) \<in> lower ` wallet_set rows"
    unfolding assms(4) by (rule imageI)
  then show "filter (\<lambda>e. Row e = i + 2) (missing_sponsors rows) = []"
    unfolding missing_sponsors_at_row [OF assms(1)] by simp
next
  show "\<forall>e \<in> set (missing_sponsors rows). \<exists>k < length rows.
            e = \<lparr>Row = k + 2, Member_Wallet = user_name_of (rows ! k),
                  Missing_Sponsor = referrer_name_of (rows ! k),
                  Activation_Sequence = activation_seq_of (rows ! k)\<rparr>"
  proof
    fix e assume "e \<in> set (missing_sponsors rows)"
    then obtain n row where p: "(n, row) \<in> set (enumerate 2 rows)"
      and e: "e = \<lparr>Row = n, Member_Wallet = user_name_of row,
                  Missing_Sponsor = referrer_name_of row,
                  Activation_Sequence = activation_seq_of row\<rparr>"
      unfolding missing_sponsors_closed by auto
    from p have "2 \<le> n" and "n - 2 < length rows" and "rows ! (n - 2) = row"
      by (auto simp: in_set_enumerate_eq)
    with e show "\<exists>k < length rows.
            e = \<lparr>Row = k + 2, Member_Wallet = user_name_of (rows ! k),
                  Missing_Sponsor = referrer_name_of (rows ! k),
                  Activation_Sequence = activation_seq_of (rows ! k)\<rparr>"
      by (intro exI [of _ "n - 2"]) simp
  qed
qed

theorem missing_sponsors_case_insensitive_witness:
  "lower (referrer_name_of ([wlgc ''0xABC'' [], wlgc ''bob'' ''0xabc'', wlgc ''eve'' ''0xZZZ''] ! 1))
     = lower (user_name_of ([wlgc ''0xABC'' [], wlgc ''bob'' ''0xabc'', wlgc ''eve'' ''0xZZZ''] ! 0))
   \<and> filter (\<lambda>e. Row e = 1 + 2)
       (missing_sponsors [wlgc ''0xABC'' [], wlgc ''bob'' ''0xabc'', wlgc ''eve'' ''0xZZZ'']) = []
   \<and> missing_sponsors [wlgc ''0xABC'' [], wlgc ''bob'' ''0xabc'', wlgc ''eve'' ''0xZZZ'']
       = [\<lparr>Row = 4, Member_Wallet = ''eve'', Missing_Sponsor = ''0xZZZ'',
            Activation_Sequence = []\<rparr>]"
proof -
  have listed: "missing_sponsors [wlgc ''0xABC'' [], wlgc ''bob'' ''0xabc'', wlgc ''eve'' ''0xZZZ'']
       = [\<lparr>Row = 4, Member_Wallet = ''eve'', Missing_Sponsor = ''0xZZZ'',
            Activation_Sequence = []\<rparr>]"
    by code_simp
  from missing_sponsors_case_insensitive
          [of 1 "[wlgc ''0xABC'' [], wlgc ''bob'' ''0xabc'', wlgc ''eve'' ''0xZZZ'']" 0]
  have "lower (referrer_name_of
                 ([wlgc ''0xABC'' [], wlgc ''bob'' ''0xabc'', wlgc ''eve'' ''0xZZZ''] ! 1))
     = lower (user_name_of ([wlgc ''0xABC'' [], wlgc ''bob'' ''0xabc'', wlgc ''eve'' ''0xZZZ''] ! 0))
   \<and> filter (\<lambda>e. Row e = 1 + 2)
       (missing_sponsors [wlgc ''0xABC'' [], wlgc ''bob'' ''0xabc'', wlgc ''eve'' ''0xZZZ'']) = []"
    by (simp add: eval_strings)
  with listed show ?thesis by (simp only: simp_thms)
qed

text \<open>
  C5 as stated fails for check_csv_duplicates.py: the row \<open>0xabc\<close> with referrer \<open>0xABC\<close>
  names itself up to letter case, and is reported as missing its sponsor all the same.
\<close>

theorem self_reference_by_case_counterexample:
  "lower (referrer_name_of (wlgc ''0xabc'' ''0xABC'')) = lower (user_name_of (wlgc ''0xabc'' ''0xABC''))
   \<and> missing [wlgc ''0xabc'' ''0xABC'']
       = [\<lparr>entry_row = 2, entry_user = ''0xabc'', entry_referrer = ''0xABC''\<rparr>]"
  by (simp add: missing_closed wallet_set_eq eval_strings)

text \<open>
  C5 (amended). For a row with a non-empty user name whose referrer is non-empty and,
  lower-cased, equals no lower-cased user name of the file, each script emits exactly one
  entry for that row (\<open>missing\<close> of check_csv_duplicates.py, \<open>missing_sponsors\<close> of
  find_missing_sponsors.py). A row whose trimmed referrer is exactly its own trimmed user
  name gets no entry in either.
\<close>

theorem dangling_referrer_reported_once:
  assumes "i < length rows"
  shows "(user_name_of (rows ! i) \<noteq> [] \<and> referrer_name_of (rows ! i) \<noteq> [] \<and>
          lower (referrer_name_of (rows ! i)) \<notin> lower ` wallet_set rows
          \<longrightarrow> filter (\<lambda>e. entry_row e = i + 2) (missing rows)
                = [\<lparr>entry_row = i + 2, entry_user = user_name_of (rows ! i),
                     entry_referrer = referrer_name_of (rows ! i)\<rparr>]
              \<and> filter (\<lambda>e. Row e = i + 2) (missing_sponsors rows)
                = [\<lparr>Row = i + 2, Member_Wallet = user_name_of (rows ! i),
                     Missing_Sponsor = referrer_name_of (rows ! i),
                     Activation_Sequence = activation_seq_of (rows ! i)\<rparr>])
       \<and> (referrer_name_of (rows ! i) = user_name_of (rows ! i)
          \<longrightarrow> filter (\<lambda>e. entry_row e = i + 2) (missing rows) = []
              \<and> filter (\<lambda>e. Row e = i + 2) (missing_sponsors rows) = [])"
proof (intro conjI impI)
  assume h: "user_name_of (rows ! i) \<noteq> [] \<and> referrer_name_of (rows ! i) \<noteq> [] \<and>
          lower (referrer_name_of (rows ! i)) \<notin> lower ` wallet_set rows"
  from h assms have own: "user_name_of (rows ! i) \<in> wallet_set rows"
    by (auto simp: wallet_set_eq)
  from h own have "referrer_name_of (rows ! i) \<noteq> user_name_of (rows ! i)"
    and "referrer_name_of (rows ! i) \<notin> wallet_set rows"
    by auto
  with h show "filter (\<lambda>e. entry_row e = i + 2) (missing rows)
                = [\<lparr>entry_row = i + 2, entry_user = user_name_of (rows ! i),
                     entry_referrer = referrer_name_of (rows ! i)\<rparr>]"
    unfolding missing_at_row [OF assms] by simp
  from h show "filter (\<lambda>e. Row e = i + 2) (missing_sponsors rows)
                = [\<lparr>Row = i + 2, Member_Wallet = user_name_of (rows ! i),
                     Missing_Sponsor = referrer_name_of (rows ! i),
                     Activation_Sequence = activation_seq_of (rows ! i)\<rparr>]"
    unfolding missing_sponsors_at_row [OF assms] by simp
next
  assume self: "referrer_name_of (rows ! i) = user_name_of (rows ! i)"
  then show "filter (\<lambda>e. entry_row e = i + 2) (missing rows) = []"
    unfolding missing_at_row [OF assms] by simp
  have "user_name_of (rows ! i) \<noteq> [] \<Longrightarrow> user_name_of (rows ! i) \<in> wallet_set rows"
    using assms by (auto simp: wallet_set_eq)
  with self show "filter (\<lambda>e. Row e = i + 2) (missing_sponsors rows) = []"
    unfolding missing_sponsors_at_row [OF assms] by auto
qed

theorem dangling_referrer_reported_once_witness:
  "filter (\<lambda>e. entry_row e = 2 + 2) (missing [wlgc ''A'' ''A'', wlgc ''B'' ''A'', wlgc ''E'' ''Z''])
     = [\<lparr>entry_row = 4, entry_user = ''E'', entry_referrer = ''Z''\<rparr>]
   \<and> filter (\<lambda>e. Row e = 2 + 2)
       (missing_sponsors [wlgc ''A'' ''A'', wlgc ''B'' ''A'', wlgc ''E'' ''Z''])
     = [\<lparr>Row = 4, Member_Wallet = ''E'', Missing_Sponsor = ''Z'', Activation_Sequence = []\<rparr>]
   \<and> filter (\<lambda>e. entry_row e = 0 + 2) (missing [wlgc ''A'' ''A'', wlgc ''B'' ''A'', wlgc ''E'' ''Z''])
     = []
   \<and> filter (\<lambda>e. Row e = 0 + 2)
       (missing_sponsors [wlgc ''A'' ''A'', wlgc ''B'' ''A'', wlgc ''E'' ''Z'']) = []"
proof -
  let ?rows = "[wlgc ''A'' ''A'', wlgc ''B'' ''A'', wlgc ''E'' ''Z'']"
  have dangling: "user_name_of (?rows ! 2) \<noteq> [] \<and> referrer_name_of (?rows ! 2) \<noteq> [] \<and>
          lower (referrer_name_of (?rows ! 2)) \<notin> lower ` wallet_set ?rows"
    by code_simp
  have self: "referrer_name_of (?rows ! 0) = user_name_of (?rows ! 0)"
    by simp
  from dangling_referrer_reported_once [of 2 ?rows] dangling
       dangling_referrer_reported_once [of 0 ?rows] self
  show ?thesis
    by (simp add: eval_strings)
qed

text \<open>
  C6 as stated fails: two rows whose user names differ only in letter case share a
  canonical identifier, and no duplicate is reported for them.
\<close>

theorem duplicate_by_case_counterexample:
  "lower (user_name_of (wlgc ''0xABC'' [])) = lower (user_name_of (wlgc ''0xabc'' []))
   \<and> duplicate_report [wlgc ''0xABC'' [], wlgc ''0xabc'' []] = Inr []"
proof -
  have "duplicates [wlgc ''0xABC'' [], wlgc ''0xabc'' []] = []"
    by (rule duplicates_none) (auto simp: eval_strings)
  then show ?thesis
    by (simp add: duplicate_report_closed eval_strings)
qed

text \<open>
  C6 (amended). When \<open>k \<ge> 2\<close> rows have the same non-empty trimmed user name \<open>w\<close>
  (compared exactly), the duplicate report is produced without error and has exactly one
  entry for \<open>w\<close>, with the count \<open>k\<close> and the numbers of all \<open>k\<close> rows.
\<close>

theorem duplicate_report_complete:
  assumes "w \<noteq> []" and "2 \<le> length (filter (\<lambda>row. user_name_of row = w) rows)"
  shows "\<exists>out. duplicate_report rows = Inr out
           \<and> filter (\<lambda>e. fst e = w) out
               = [(w, length (filter (\<lambda>row. user_name_of row = w) rows), provenance w rows)]
           \<and> length (provenance w rows) = length (filter (\<lambda>row. user_name_of row = w) rows)"
proof -
  let ?k = "length (filter (\<lambda>row. user_name_of row = w) rows)"
  let ?out = "map (\<lambda>(w, c). (w, c, provenance w rows)) (sort (duplicates rows))"
  have "filter (\<lambda>e. fst e = w) ?out
          = map (\<lambda>(w, c). (w, c, provenance w rows))
              (sort (filter (\<lambda>e. fst e = w) (duplicates rows)))"
    by (simp add: filter_map comp_def case_prod_unfold filter_sort)
  also have "\<dots> = [(w, ?k, provenance w rows)]"
    using assms by (simp add: duplicates_entry)
  finally show ?thesis
    by (intro exI [of _ ?out]) (simp add: duplicate_report_closed length_provenance)
qed

theorem duplicate_report_complete_witness:
  "2 \<le> length (filter (\<lambda>row. user_name_of row = ''a'') [wlgc ''a'' [], wlgc ''b'' [], wlgc ''a'' ''b''])
   \<and> (\<exists>out. duplicate_report [wlgc ''a'' [], wlgc ''b'' [], wlgc ''a'' ''b''] = Inr out
         \<and> filter (\<lambda>e. fst e = ''a'') out = [(''a'', Suc (Suc 0), [2, 4])])"
  using duplicate_report_complete [of "''a''" "[wlgc ''a'' [], wlgc ''b'' [], wlgc ''a'' ''b'']"]
  by (simp add: provenance_def eval_strings)

text \<open>
  C7 as stated fails: on the rows of a cycle \<open>0xA \<rightarrow> 0xB \<rightarrow> 0xC \<rightarrow> 0xA\<close> the audit
  scripts report nothing at all; they have no cycle finding.
\<close>

theorem cycle_findings_counterexample:
  "duplicate_report [wlgc ''0xA'' ''0xB'', wlgc ''0xB'' ''0xC'', wlgc ''0xC'' ''0xA''] = Inr []
   \<and> missing [wlgc ''0xA'' ''0xB'', wlgc ''0xB'' ''0xC'', wlgc ''0xC'' ''0xA''] = []
   \<and> missing_sponsors [wlgc ''0xA'' ''0xB'', wlgc ''0xB'' ''0xC'', wlgc ''0xC'' ''0xA''] = []"
  by code_simp

text \<open>
  C7 (amended). For a cycle \<open>A \<rightarrow> B \<rightarrow> C \<rightarrow> A\<close> of three distinct non-empty names, the
  audit scripts report no duplicate and no missing sponsor. The only treatment of a cycle
  is in \<open>resolve_referrer\<close>: when no wallet of the cycle is in the cohort set, the call for
  \<open>A\<close> returns \<open>FALLBACK_ROOT\<close> (through \<open>seen\<close>).
\<close>

theorem cycle_not_reported:
  assumes "distinct [strip a, strip b, strip c]" and "[] \<notin> set [strip a, strip b, strip c]"
  shows "duplicate_report [wlgc a b, wlgc b c, wlgc c a] = Inr []
       \<and> missing [wlgc a b, wlgc b c, wlgc c a] = []
       \<and> missing_sponsors [wlgc a b, wlgc b c, wlgc c a] = []
       \<and> (strip a \<notin> addrs \<and> strip b \<notin> addrs \<and> strip c \<notin> addrs \<longrightarrow>
            resolve_referrer (strip a) (load_member_referrers [mrow a b, mrow b c, mrow c a]) addrs
              = FALLBACK_ROOT)"
proof (intro conjI impI)
  have "duplicates [wlgc a b, wlgc b c, wlgc c a] = []"
    using assms by (intro duplicates_none) auto
  then show "duplicate_report [wlgc a b, wlgc b c, wlgc c a] = Inr []"
    by (simp add: duplicate_report_closed)
  show "missing [wlgc a b, wlgc b c, wlgc c a] = []"
    using assms by (auto simp: missing_closed wallet_set_eq)
  show "missing_sponsors [wlgc a b, wlgc b c, wlgc c a] = []"
    using assms by (auto simp: missing_sponsors_closed)
next
  assume out: "strip a \<notin> addrs \<and> strip b \<notin> addrs \<and> strip c \<notin> addrs"
  have refs: "load_member_referrers [mrow a b, mrow b c, mrow c a]
          = [(strip a, strip b), (strip b, strip c), (strip c, strip a)]"
    using assms by (auto simp: load_member_referrers_def mrow_def or_empty_def Let_def)
  show "resolve_referrer (strip a) (load_member_referrers [mrow a b, mrow b c, mrow c a]) addrs
              = FALLBACK_ROOT"
    unfolding refs using assms out
    by (simp add: resolve_referrer_def resolve_referrer_run_def dict_get_def Let_def
          resolve_loop.simps [of _ "strip a"] resolve_loop.simps [of _ "strip b"]
          resolve_loop.simps [of _ "strip c"])
qed

theorem cycle_not_reported_witness:
  "distinct [strip ''A'', strip ''B'', strip ''C'']
   \<and> duplicate_report [wlgc ''A'' ''B'', wlgc ''B'' ''C'', wlgc ''C'' ''A''] = Inr []
   \<and> missing [wlgc ''A'' ''B'', wlgc ''B'' ''C'', wlgc ''C'' ''A''] = []
   \<and> missing_sponsors [wlgc ''A'' ''B'', wlgc ''B'' ''C'', wlgc ''C'' ''A''] = []
   \<and> resolve_referrer ''A'' (load_member_referrers [mrow ''A'' ''B'', mrow ''B'' ''C'', mrow ''C'' ''A''])
       {''Q''} = FALLBACK_ROOT"
  using cycle_not_reported [of "''A''" "''B''" "''C''" "{''Q''}"]
  by (simp add: eval_strings)

text \<open>
  C8 as stated fails: with \<open>b\<close> duplicated at rows 2 and 3 and \<open>a\<close> at rows 4 and 5, the
  report lists \<open>a\<close> before \<open>b\<close>, the later duplicate first; with the two names exchanged
  in the same rows, it lists the earlier duplicate first. The order of the findings is
  that of \<open>sorted\<close> on the wallet strings, not that of the input rows.
\<close>

theorem report_order_counterexample:
  "wallets (scan [wlgc ''b'' [], wlgc ''b'' [], wlgc ''a'' [], wlgc ''a'' []])
     = [''b'', ''b'', ''a'', ''a'']
   \<and> duplicate_report [wlgc ''b'' [], wlgc ''b'' [], wlgc ''a'' [], wlgc ''a'' []]
       = Inr [(''a'', 2, [4, 5]), (''b'', 2, [2, 3])]
   \<and> duplicate_report [wlgc ''a'' [], wlgc ''a'' [], wlgc ''b'' [], wlgc ''b'' []]
       = Inr [(''a'', 2, [2, 3]), (''b'', 2, [4, 5])]"
  by code_simp

text \<open>
  C8 (amended). The duplicate report is in ascending order of the wallet strings (no
  wallet twice), each entry listing its rows in ascending row number, that is first to
  last in the input; the missing-sponsor entries of both scripts are in input order; and
  the report does not depend on the order in which the \<open>duplicates\<close> dictionary yields
  its items.
\<close>

theorem report_order:
  "(\<exists>out. duplicate_report rows = Inr out \<and> sorted (map fst out) \<and> distinct (map fst out)
        \<and> (\<forall>e \<in> set out. snd (snd e) = provenance (fst e) rows \<and> sorted_wrt (<) (snd (snd e))))
   \<and> sorted_wrt (<) (map entry_row (missing rows))
   \<and> sorted_wrt (<) (map Row (missing_sponsors rows))
   \<and> (\<forall>items. distinct items \<and> set items = set (duplicates rows) \<longrightarrow>
         report_sorted (wallet_to_row (scan rows)) items = duplicate_report rows)"
proof (intro conjI allI impI)
  let ?out = "map (\<lambda>(w, c). (w, c, provenance w rows)) (sort (duplicates rows))"
  have fst_out: "map fst ?out = map fst (sort (duplicates rows))"
    by (simp add: comp_def case_prod_unfold)
  have "sorted (map fst ?out)"
    unfolding fst_out by (rule sorted_map_fst) simp
  moreover have "distinct (map fst ?out)"
    unfolding fst_out using duplicates_distinct [of rows]
    by (simp add: distinct_map inj_on_def)
  moreover have "\<forall>e \<in> set ?out. snd (snd e) = provenance (fst e) rows \<and> sorted_wrt (<) (snd (snd e))"
    by (auto simp: provenance_def sorted_fst_filter_enumerate)
  ultimately show "\<exists>out. duplicate_report rows = Inr out \<and> sorted (map fst out) \<and> distinct (map fst out)
        \<and> (\<forall>e \<in> set out. snd (snd e) = provenance (fst e) rows \<and> sorted_wrt (<) (snd (snd e)))"
    unfolding duplicate_report_closed by blast
next
  have "map entry_row (missing rows) = map fst (filter (\<lambda>(n, row). referrer_name_of row \<noteq> [] \<and>
                  referrer_name_of row \<noteq> user_name_of row \<and>
                  referrer_name_of row \<notin> wallet_set rows) (enumerate 2 rows))"
    by (simp add: missing_closed comp_def case_prod_unfold)
  then show "sorted_wrt (<) (map entry_row (missing rows))"
    by (simp only: sorted_fst_filter_enumerate)
next
  have "map Row (missing_sponsors rows) = map fst (filter (\<lambda>(n, row). user_name_of row \<noteq> [] \<and> referrer_name_of row \<noteq> [] \<and>
                  lower (referrer_name_of row) \<notin> lower ` {w \<in> user_name_of ` set rows. w \<noteq> []}) (enumerate 2 rows))"
    by (simp add: missing_sponsors_closed comp_def case_prod_unfold)
  then show "sorted_wrt (<) (map Row (missing_sponsors rows))"
    by (simp only: sorted_fst_filter_enumerate)
next
  fix items :: "(string \<times> nat) list"
  assume h: "distinct items \<and> set items = set (duplicates rows)"
  have "distinct (duplicates rows)"
    using duplicates_distinct [of rows] by (simp add: distinct_map)
  with h have "sort items = sort (duplicates rows)"
    by (intro sorted_distinct_set_unique) simp_all
  with h show "report_sorted (wallet_to_row (scan rows)) items = duplicate_report rows"
    by (simp add: report_sorted_closed duplicate_report_closed)
qed

theorem report_order_witness:
  "distinct [(''a'', 2 :: nat), (''b'', 2)]
   \<and> duplicates [wlgc ''b'' [], wlgc ''b'' [], wlgc ''a'' [], wlgc ''a'' []]
       = [(''b'', 2), (''a'', 2)]
   \<and> set [(''a'', 2), (''b'', 2)]
       = set (duplicates [wlgc ''b'' [], wlgc ''b'' [], wlgc ''a'' [], wlgc ''a'' []])
   \<and> report_sorted (wallet_to_row (scan [wlgc ''b'' [], wlgc ''b'' [], wlgc ''a'' [], wlgc ''a'' []]))
         [(''a'', 2), (''b'', 2)]
       = duplicate_report [wlgc ''b'' [], wlgc ''b'' [], wlgc ''a'' [], wlgc ''a'' []]"
proof -
  have d: "duplicates [wlgc ''b'' [], wlgc ''b'' [], wlgc ''a'' [], wlgc ''a'' []]
             = [(''b'', 2), (''a'', 2)]"
    by code_simp
  have h: "distinct [(''a'', 2 :: nat), (''b'', 2)]
         \<and> set [(''a'', 2), (''b'', 2)]
             = set (duplicates [wlgc ''b'' [], wlgc ''b'' [], wlgc ''a'' [], wlgc ''a'' []])"
    unfolding d by auto
  with report_order [of "[wlgc ''b'' [], wlgc ''b'' [], wlgc ''a'' [], wlgc ''a'' []]"]
  have "report_sorted
          (wallet_to_row (scan [wlgc ''b'' [], wlgc ''b'' [], wlgc ''a'' [], wlgc ''a'' []]))
          [(''a'', 2), (''b'', 2)]
        = duplicate_report [wlgc ''b'' [], wlgc ''b'' [], wlgc ''a'' [], wlgc ''a'' []]"
    by blast
  with h d show ?thesis by (simp only: simp_thms)
qed

section \<open>The scripts on cells with Latin-1 white space and capitals\<close>

text \<open>
  A no-break space (0xA0) around a name is trimmed like a blank, and a Latin-1 capital
  (0xC9) is folded to its small letter (0xE9), as \<open>str.strip()\<close> and \<open>str.lower()\<close> do.
\<close>

lemma strip_lower_latin1:
  "strip (CHR 0xA0 # ''0xA1'' @ [CHR 0x85]) = ''0xA1''"
  "lower (CHR 0xC9 # ''ric'') = CHR 0xE9 # ''ric''"
  "lower [CHR 0xD7, CHR 0xDF, CHR 0xB5] = [CHR 0xD7, CHR 0xDF, CHR 0xB5]"
  by (simp_all add: eval_strings)

lemma load_member_referrers_latin1:
  "load_member_referrers [mrow (CHR 0xA0 # ''0xA1'') ''0xB1'', mrow ''0xA1'' ''0xC1'']
     = [(''0xA1'', ''0xC1'')]"
  by (simp add: load_member_referrers_def Let_def eval_strings)

lemma duplicate_report_latin1:
  "duplicate_report [wlgc [CHR 0xA0] [], wlgc [CHR 0xA0] []] = Inr []"
  "duplicate_report [wlgc (''A'' @ [CHR 0xA0]) [], wlgc ''A'' [], wlgc ''A'' []]
     = Inr [(''A'', 3, [2, 3, 4])]"
  by code_simp+

lemma missing_sponsors_latin1:
  "missing_sponsors [wlgc (CHR 0xC9 # ''ric'') [], wlgc ''z'' (CHR 0xE9 # ''ric'')] = []"
  by code_simp

end
